theory Spec2Isabelle
  imports Main "HOL-Library.Sublist" "HOL-Library.Word"
begin

section \<open>Errors, containers and weight types\<close>

text \<open>
  The exceptions the code can raise: \<open>std::out_of_range\<close> (thrown by \<open>addEdge\<close>, by
  \<open>std::vector::at\<close> and by \<open>std::unordered_map::at\<close>) and \<open>std::length_error\<close>
  (a vector constructed with a negative size).
\<close>

datatype error = OutOfRange | LengthError

text \<open>
  \<open>std::numeric_limits<T>\<close> of the weight type \<open>T\<close>, as far as the code reads it.
  The weight type itself is a type parameter \<open>'w\<close> with an order, an addition and a zero.
\<close>

record 'w limits =
  has_infinity :: bool
  native_infinity :: 'w
  max_value :: 'w

definition infinity :: "'w limits \<Rightarrow> 'w" where
  "infinity L = (if has_infinity L then native_infinity L else max_value L)"

text \<open>
  \<open>std::vector::at\<close> with an \<open>int\<close> argument: the index is converted to \<open>size_t\<close>, so a
  negative one is larger than every size and is out of range like one that is too big.
\<close>

definition in_range :: "'a list \<Rightarrow> int \<Rightarrow> bool" where
  "in_range xs i = (0 \<le> i \<and> i < int (length xs))"

definition vec_at :: "'a list \<Rightarrow> int \<Rightarrow> error + 'a" where
  "vec_at xs i = (if in_range xs i then Inr (xs ! nat i) else Inl OutOfRange)"

text \<open>
  \<open>std::unordered_map<int, T>\<close> as an association list with distinct keys. The list order
  stands for the (unspecified) iteration order of the map; \<open>insert\<close> leaves a map that
  already has the key as it is.
\<close>

type_synonym 'w umap = "(int \<times> 'w) list"

definition um_contains :: "'w umap \<Rightarrow> int \<Rightarrow> bool" where
  "um_contains m k = (map_of m k \<noteq> None)"

definition um_insert :: "'w umap \<Rightarrow> int \<Rightarrow> 'w \<Rightarrow> 'w umap" where
  "um_insert m k v = (if um_contains m k then m else m @ [(k, v)])"

definition um_erase :: "'w umap \<Rightarrow> int \<Rightarrow> 'w umap" where
  "um_erase m k = filter (\<lambda>e. fst e \<noteq> k) m"

definition um_at :: "'w umap \<Rightarrow> int \<Rightarrow> error + 'w" where
  "um_at m k = (case map_of m k of None \<Rightarrow> Inl OutOfRange | Some v \<Rightarrow> Inr v)"

section \<open>The class Graph\<close>

record 'w Graph =
  adjList :: "'w umap list"
  numVertices :: int

text \<open>\<open>Graph(int N)\<close>: the vector constructor throws on a negative size.\<close>

definition Graph :: "int \<Rightarrow> error + 'w Graph" where
  "Graph N = (if N < 0 then Inl LengthError
              else Inr \<lparr>adjList = replicate (nat N) [], numVertices = N\<rparr>)"

definition size_graph :: "'w Graph \<Rightarrow> int" where
  "size_graph G = numVertices G"

text \<open>
  A mutating member function returns what it raised, if anything, and the graph it
  leaves behind.
\<close>

definition addEdge :: "'w Graph \<Rightarrow> int \<Rightarrow> int \<Rightarrow> 'w \<Rightarrow> (error + unit) \<times> 'w Graph" where
  "addEdge G i j weight =
     (if i < 0 \<or> i \<ge> numVertices G \<or> j < 0 \<or> j \<ge> numVertices G
      then (Inl OutOfRange, G)
      else (Inr (),
            G\<lparr>adjList := (adjList G)[nat i := um_insert (adjList G ! nat i) j weight]\<rparr>))"

definition removeEdge :: "'w Graph \<Rightarrow> int \<Rightarrow> int \<Rightarrow> 'w Graph" where
  "removeEdge G i j =
     (if i \<ge> 0 \<and> i < numVertices G \<and> j \<ge> 0 \<and> j < numVertices G
      then G\<lparr>adjList := (adjList G)[nat i := um_erase (adjList G ! nat i) j]\<rparr>
      else G)"

definition isEdge :: "'w Graph \<Rightarrow> int \<Rightarrow> int \<Rightarrow> error + bool" where
  "isEdge G i j =
     (if i \<ge> 0 \<and> i < numVertices G \<and> j \<ge> 0 \<and> j < numVertices G
      then (case vec_at (adjList G) i of Inl e \<Rightarrow> Inl e | Inr m \<Rightarrow> Inr (um_contains m j))
      else Inr False)"

definition getEdgeWeight :: "'w Graph \<Rightarrow> int \<Rightarrow> int \<Rightarrow> error + 'w" where
  "getEdgeWeight G i j =
     (case vec_at (adjList G) i of Inl e \<Rightarrow> Inl e | Inr m \<Rightarrow> um_at m j)"

text \<open>
  \<open>neighbours(a)\<close> is \<open>adjList.begin() + a\<close>, dereferenced by the callers without a
  check. The class keeps \<open>adjList.size() == numVertices\<close>, and every caller passes an
  index it has bounded by \<open>size()\<close> first, so the read is in range on every graph that
  satisfies \<open>graph_inv\<close> below.
\<close>

definition neighbours :: "'w Graph \<Rightarrow> int \<Rightarrow> 'w umap" where
  "neighbours G a = adjList G ! nat a"

text \<open>
  The class invariant: as many adjacency maps as vertices, keys unique within a map
  (it is a map), and every key a vertex (\<open>addEdge\<close> is the only way in).
\<close>

definition graph_inv :: "'w Graph \<Rightarrow> bool" where
  "graph_inv G =
     (0 \<le> numVertices G \<and> int (length (adjList G)) = numVertices G \<and>
      (\<forall>m \<in> set (adjList G). distinct (map fst m) \<and>
         (\<forall>k \<in> fst ` set m. 0 \<le> k \<and> k < numVertices G)))"

text \<open>
  \<open>Graph(const std::string&)\<close> on the tokens it has read from the file: the vertex count,
  then the triples \<open>origin dest weight\<close>, each handed to \<open>addEdge\<close>; an exception of
  \<open>addEdge\<close> leaves the constructor.
\<close>

fun addEdges :: "'w Graph \<Rightarrow> (int \<times> int \<times> 'w) list \<Rightarrow> error + 'w Graph" where
  "addEdges G [] = Inr G"
| "addEdges G ((i, j, weight) # es) =
     (case addEdge G i j weight of
        (Inl e, G') \<Rightarrow> Inl e
      | (Inr u, G') \<Rightarrow> addEdges G' es)"

definition GraphFromEdges :: "int \<Rightarrow> (int \<times> int \<times> 'w) list \<Rightarrow> error + 'w Graph" where
  "GraphFromEdges N es = (case Graph N of Inl e \<Rightarrow> Inl e | Inr G \<Rightarrow> addEdges G es)"

section \<open>The four checks\<close>

text \<open>
  What a loop body can do: throw, return from the enclosing function, or fall through
  to the next iteration with the loop's state.
\<close>

datatype ('r, 's) outcome = Throw error | Return 'r | Next 's

subsection \<open>isSubgraph\<close>

fun isSubgraph_edges :: "'w Graph \<Rightarrow> int \<Rightarrow> 'w umap \<Rightarrow> (bool, unit) outcome" where
  "isSubgraph_edges G vertexH [] = Next ()"
| "isSubgraph_edges G vertexH (edge # es) =
     (let nextVertex = fst edge; weight = snd edge in
      case isEdge G vertexH nextVertex of
        Inl e \<Rightarrow> Throw e
      | Inr b \<Rightarrow>
         if b = False then Return False
         else (case getEdgeWeight G vertexH nextVertex of
                 Inl e \<Rightarrow> Throw e
               | Inr w' \<Rightarrow> if w' \<noteq> weight then Return False
                          else isSubgraph_edges G vertexH es))"

fun isSubgraph_loop :: "'w Graph \<Rightarrow> 'w Graph \<Rightarrow> int list \<Rightarrow> error + bool" where
  "isSubgraph_loop H G [] = Inr True"
| "isSubgraph_loop H G (vertexH # vs) =
     (case isSubgraph_edges G vertexH (neighbours H vertexH) of
        Throw e \<Rightarrow> Inl e
      | Return b \<Rightarrow> Inr b
      | Next u \<Rightarrow> isSubgraph_loop H G vs)"

definition isSubgraph :: "'w Graph \<Rightarrow> 'w Graph \<Rightarrow> error + bool" where
  "isSubgraph H G =
     (if size_graph H > size_graph G then Inr False
      else isSubgraph_loop H G [0 .. size_graph H - 1])"

subsection \<open>isTreePlusIsolated\<close>

text \<open>The \<open>for\<close> loop over the edges of the vertex taken from the queue.\<close>

fun markEdges :: "'w umap \<Rightarrow> bool list \<Rightarrow> int list \<Rightarrow> (bool, bool list \<times> int list) outcome" where
  "markEdges [] marked visit_queue = Next (marked, visit_queue)"
| "markEdges (edge # es) marked visit_queue =
     (let nextVertex = fst edge in
      case vec_at marked nextVertex of
        Inl e \<Rightarrow> Throw e
      | Inr b \<Rightarrow> if b = True then Return False
                 else markEdges es (marked[nat nextVertex := True]) (visit_queue @ [nextVertex]))"

text \<open>
  The number of vertices not yet marked: every edge the loop follows marks one of them,
  so this number plus the length of the queue goes down with every vertex taken from
  the queue.
\<close>

definition unmarked :: "bool list \<Rightarrow> nat" where
  "unmarked marked = length (filter Not marked)"

text \<open>The \<open>while\<close> loop over the queue.\<close>

function treeLoop :: "'w Graph \<Rightarrow> bool list \<Rightarrow> int list \<Rightarrow> (bool, bool list) outcome" where
  "treeLoop G marked [] = Next marked"
| "treeLoop G marked (currentVertex # visit_queue) =
     (case markEdges (neighbours G currentVertex) marked visit_queue of
        Throw e \<Rightarrow> Throw e
      | Return b \<Rightarrow> Return b
      | Next (marked', visit_queue') \<Rightarrow> treeLoop G marked' visit_queue')"
  by pat_completeness auto
termination
proof (relation "measure (\<lambda>(G, marked, q). unmarked marked + length q)")
  show "wf (measure (\<lambda>(G :: 'w Graph, marked, q). unmarked marked + length q))" by simp
next
  fix G :: "'w Graph" and marked currentVertex visit_queue x3 x y
  assume "markEdges (neighbours G currentVertex) marked visit_queue = Next x3"
    and "(x, y) = x3"
  then have run: "markEdges (neighbours G currentVertex) marked visit_queue = Next (x, y)"
    by simp
  have upd: "Suc (unmarked (m[i := True])) = unmarked m" if "i < length m" "\<not> m ! i"
    for m i
    using that
  proof (induction m arbitrary: i)
    case Nil
    then show ?case by simp
  next
    case (Cons b bs)
    then show ?case by (cases i) (auto simp: unmarked_def)
  qed
  have meas: "unmarked m' + length q' = unmarked m + length q"
    if "markEdges es m q = Next (m', q')" for es :: "'w umap" and m q m' q'
    using that
  proof (induction es arbitrary: m q)
    case Nil
    then show ?case by simp
  next
    case (Cons edge es)
    let ?v = "fst edge"
    from Cons.prems have r: "in_range m ?v" and nm: "\<not> m ! nat ?v"
      and rest: "markEdges es (m[nat ?v := True]) (q @ [?v]) = Next (m', q')"
      by (auto simp: vec_at_def Let_def split: if_splits)
    from r have "nat ?v < length m" by (auto simp: in_range_def)
    from upd[OF this nm] Cons.IH[OF rest] show ?case by simp
  qed
  from meas[OF run]
  show "((G, x, y), G, marked, currentVertex # visit_queue)
        \<in> measure (\<lambda>(G, marked, q). unmarked marked + length q)" by simp
qed

text \<open>The closing loop: a vertex left unmarked must have no outgoing edge.\<close>

fun isolated_loop :: "'w Graph \<Rightarrow> bool list \<Rightarrow> int list \<Rightarrow> error + bool" where
  "isolated_loop G marked [] = Inr True"
| "isolated_loop G marked (isoV # vs) =
     (case vec_at marked isoV of
        Inl e \<Rightarrow> Inl e
      | Inr b \<Rightarrow> if b = False \<and> neighbours G isoV \<noteq> [] then Inr False
                 else isolated_loop G marked vs)"

definition isTreePlusIsolated :: "'w Graph \<Rightarrow> int \<Rightarrow> error + bool" where
  "isTreePlusIsolated G root =
     (let marked = replicate (nat (size_graph G)) False in
      if \<not> in_range marked root then Inl OutOfRange
      else (case treeLoop G (marked[nat root := True]) [root] of
              Throw e \<Rightarrow> Inl e
            | Return b \<Rightarrow> Inr b
            | Next marked' \<Rightarrow> isolated_loop G marked' [0 .. size_graph G - 1]))"

subsection \<open>pathLengthsFromRoot\<close>

text \<open>
  The \<open>for\<close> loop over the edges of \<open>currentVertex\<close>. Both reads go through \<open>at\<close>;
  \<open>dist_to.at(currentVertex)\<close> is read again for every edge, so a self-loop sees its own
  update. The sum that is compared is the sum that is stored: this is the template at a
  weight type whose sums are formed in the type itself (\<open>int\<close>, \<open>unsigned\<close>, \<open>long\<close>,
  \<open>float\<close>, \<open>double\<close>). The types narrower than \<open>int\<close> follow below.
\<close>

fun relaxEdges ::
  "int \<Rightarrow> 'w::{linorder,plus} umap \<Rightarrow> 'w list \<Rightarrow> int list \<Rightarrow> error + ('w list \<times> int list)" where
  "relaxEdges currentVertex [] dist_to visit_queue = Inr (dist_to, visit_queue)"
| "relaxEdges currentVertex (edge # es) dist_to visit_queue =
     (let nextVertex = fst edge; weight = snd edge in
      case vec_at dist_to nextVertex of
        Inl e \<Rightarrow> Inl e
      | Inr dn \<Rightarrow>
         (case vec_at dist_to currentVertex of
            Inl e \<Rightarrow> Inl e
          | Inr dc \<Rightarrow>
             if dn > dc + weight
             then relaxEdges currentVertex es (dist_to[nat nextVertex := dc + weight])
                    (visit_queue @ [nextVertex])
             else relaxEdges currentVertex es dist_to visit_queue))"

text \<open>
  The \<open>while\<close> loop over the queue. Nothing bounds the number of times a vertex is
  put back, so the loop is a partial function: \<open>None\<close> is "does not return".
\<close>

partial_function (option) pathLoop ::
  "'w::{linorder,plus} Graph \<Rightarrow> 'w list \<Rightarrow> int list \<Rightarrow> (error + 'w list) option" where
  "pathLoop tree dist_to visit_queue =
     (case visit_queue of
        [] \<Rightarrow> Some (Inr dist_to)
      | currentVertex # rest \<Rightarrow>
         (case relaxEdges currentVertex (neighbours tree currentVertex) dist_to rest of
            Inl e \<Rightarrow> Some (Inl e)
          | Inr (dist_to', visit_queue') \<Rightarrow> pathLoop tree dist_to' visit_queue'))"

definition pathLengthsFromRoot ::
  "'w::{linorder,plus,zero} limits \<Rightarrow> 'w Graph \<Rightarrow> int \<Rightarrow> (error + 'w list) option" where
  "pathLengthsFromRoot L tree root =
     (let dist_to = replicate (nat (size_graph tree)) (max_value L) in
      if \<not> in_range dist_to root then Some (Inl OutOfRange)
      else pathLoop tree (dist_to[nat root := 0]) [root])"

subsection \<open>pathLengthsFromRoot at the weight type short\<close>





subsection \<open>allEdgesRelaxed\<close>

fun allEdgesRelaxed_edges ::
  "'w::{linorder,plus} limits \<Rightarrow> 'w list \<Rightarrow> int \<Rightarrow> 'w umap \<Rightarrow> (bool, unit) outcome" where
  "allEdgesRelaxed_edges L bestDistanceTo currentVertex [] = Next ()"
| "allEdgesRelaxed_edges L bestDistanceTo currentVertex (edge # es) =
     (let nextVertex = fst edge; weight = snd edge in
      case vec_at bestDistanceTo currentVertex of
        Inl e \<Rightarrow> Throw e
      | Inr dc \<Rightarrow>
         if dc \<noteq> infinity L
         then (case vec_at bestDistanceTo nextVertex of
                 Inl e \<Rightarrow> Throw e
               | Inr dn \<Rightarrow> if dn > dc + weight then Return False
                           else allEdgesRelaxed_edges L bestDistanceTo currentVertex es)
         else allEdgesRelaxed_edges L bestDistanceTo currentVertex es)"

fun allEdgesRelaxed_loop ::
  "'w::{linorder,plus} limits \<Rightarrow> 'w list \<Rightarrow> 'w Graph \<Rightarrow> int list \<Rightarrow> error + bool" where
  "allEdgesRelaxed_loop L bestDistanceTo G [] = Inr True"
| "allEdgesRelaxed_loop L bestDistanceTo G (currentVertex # vs) =
     (case allEdgesRelaxed_edges L bestDistanceTo currentVertex (neighbours G currentVertex) of
        Throw e \<Rightarrow> Inl e
      | Return b \<Rightarrow> Inr b
      | Next u \<Rightarrow> allEdgesRelaxed_loop L bestDistanceTo G vs)"

definition allEdgesRelaxed ::
  "'w::{linorder,plus,zero} limits \<Rightarrow> 'w list \<Rightarrow> 'w Graph \<Rightarrow> int \<Rightarrow> error + bool" where
  "allEdgesRelaxed L bestDistanceTo G source =
     (case vec_at bestDistanceTo source of
        Inl e \<Rightarrow> Inl e
      | Inr d0 \<Rightarrow> if d0 \<noteq> 0 then Inr False
                  else allEdgesRelaxed_loop L bestDistanceTo G [0 .. size_graph G - 1])"

declare pathLoop.simps [code]


section \<open>Edges, weight types and example graphs\<close>

text \<open>The edges \<open>(origin, destination, weight)\<close> of a graph, vertex by vertex.\<close>

definition edge_list :: "'w Graph \<Rightarrow> (int \<times> int \<times> 'w) list" where
  "edge_list G =
     concat (map (\<lambda>v. map (\<lambda>e. (v, fst e, snd e)) (neighbours G v)) [0 .. size_graph G - 1])"

text \<open>
  \<open>T = int\<close>: no native infinity, so \<open>infinity<int>()\<close> is \<open>max()\<close>. The weights of an
  \<open>int Graph\<close> are mathematical integers: they agree with the machine's only as long
  as no sum leaves the range of \<open>int\<close>, so \<open>int_limits\<close> is used for scenario A alone,
  where every sum stays small.
\<close>

definition int_limits :: "int limits" where
  "int_limits = \<lparr>has_infinity = False, native_infinity = 0, max_value = 2147483647\<rparr>"

text \<open>
  A weight type with native infinities, as \<open>float\<close> and \<open>double\<close> are: \<open>Fin k\<close> is
  the finite value of \<open>k\<close> units, \<open>Fin fp_max\<close> the largest one, and a sum beyond it
  overflows to an infinity. With \<open>2 ^ 971\<close> as the unit, \<open>Fin k\<close> for
  \<open>- fp_max \<le> k \<le> fp_max\<close> is the double \<open>k * 2 ^ 971\<close>, \<open>Fin fp_max\<close> is \<open>DBL_MAX\<close>,
  and on these values and the infinities the order and the sums are those of IEEE
  doubles (\<open>PInf + MInf\<close>, a NaN there, is never formed below).
\<close>

datatype fp = MInf | Fin int | PInf

definition fp_max :: int where
  "fp_max = 2 ^ 53 - 1"

instantiation fp :: "{linorder, plus, zero}"
begin

fun less_eq_fp :: "fp \<Rightarrow> fp \<Rightarrow> bool" where
  "less_eq_fp MInf y = True"
| "less_eq_fp (Fin a) MInf = False"
| "less_eq_fp (Fin a) (Fin b) = (a \<le> b)"
| "less_eq_fp (Fin a) PInf = True"
| "less_eq_fp PInf PInf = True"
| "less_eq_fp PInf y = False"

definition less_fp :: "fp \<Rightarrow> fp \<Rightarrow> bool" where
  "less_fp x y = (x \<le> y \<and> \<not> y \<le> x)"

fun plus_fp :: "fp \<Rightarrow> fp \<Rightarrow> fp" where
  "plus_fp (Fin a) (Fin b) =
     (if a + b > fp_max then PInf else if a + b < - fp_max then MInf else Fin (a + b))"
| "plus_fp PInf y = PInf"
| "plus_fp x PInf = PInf"
| "plus_fp MInf y = MInf"
| "plus_fp x MInf = MInf"

definition zero_fp :: fp where
  "zero_fp = Fin 0"

instance
proof
  fix x y z :: fp
  show "(x < y) = (x \<le> y \<and> \<not> y \<le> x)" by (simp add: less_fp_def)
  show "x \<le> x" by (cases x) simp_all
  show "x \<le> y \<Longrightarrow> y \<le> z \<Longrightarrow> x \<le> z" by (cases x; cases y; cases z) simp_all
  show "x \<le> y \<Longrightarrow> y \<le> x \<Longrightarrow> x = y" by (cases x; cases y) simp_all
  show "x \<le> y \<or> y \<le> x" by (cases x; cases y) auto
qed

end

definition fp_limits :: "fp limits" where
  "fp_limits = \<lparr>has_infinity = True, native_infinity = PInf, max_value = Fin fp_max\<rparr>"

text \<open>Two vertices without an edge, and with the edge \<open>(0, 1)\<close> of weight 5.\<close>

definition twoVertices :: "int Graph" where
  "twoVertices = \<lparr>adjList = [[], []], numVertices = 2\<rparr>"

definition oneEdge :: "int Graph" where
  "oneEdge = \<lparr>adjList = [[(1, 5)], []], numVertices = 2\<rparr>"

text \<open>Scenario A of the specification: the graph and the candidate tree.\<close>

definition scenarioA_G :: "int Graph" where
  "scenarioA_G = \<lparr>adjList = [[(1, 1), (2, 4)], [(2, 2), (3, 5)], [(3, 1)], []], numVertices = 4\<rparr>"

definition scenarioA_T :: "int Graph" where
  "scenarioA_T = \<lparr>adjList = [[(1, 1)], [(2, 2)], [(3, 1)], []], numVertices = 4\<rparr>"

text \<open>
  Graphs with \<open>fp\<close> weights: two and three vertices without an edge, and three vertices
  with the single edge \<open>(1, 2)\<close> of weight \<open>- 1\<close>.
\<close>

definition isolated2 :: "fp Graph" where
  "isolated2 = \<lparr>adjList = [[], []], numVertices = 2\<rparr>"

definition isolated3 :: "fp Graph" where
  "isolated3 = \<lparr>adjList = [[], [], []], numVertices = 3\<rparr>"

definition stray_edge :: "fp Graph" where
  "stray_edge = \<lparr>adjList = [[], [(2, Fin (- 1))], []], numVertices = 3\<rparr>"


text \<open>
  Graphs with \<open>int\<close> weights: one vertex and no edge; a vertex with two incoming edges;
  an edge between two vertices the root 0 does not reach.
\<close>

definition singleVertex :: "int Graph" where
  "singleVertex = \<lparr>adjList = [[]], numVertices = 1\<rparr>"

definition twoParents :: "int Graph" where
  "twoParents = \<lparr>adjList = [[(1, 1), (2, 4)], [(2, 2)], []], numVertices = 3\<rparr>"

definition unreachedEdge :: "int Graph" where
  "unreachedEdge = \<lparr>adjList = [[], [(2, 1)], []], numVertices = 3\<rparr>"









text \<open>
  The edges as a relation on vertices, the vertices reachable from the root, and the
  edges that leave a reachable vertex. The reachable part is a tree when no two of
  those edges have the same target and none of them enters the root; the rest is
  isolated when no vertex outside the reachable part has an outgoing edge.
\<close>

definition edge_rel :: "'w Graph \<Rightarrow> (int \<times> int) set" where
  "edge_rel G = {(u, v). 0 \<le> u \<and> u < numVertices G \<and> v \<in> fst ` set (neighbours G u)}"

definition reachable :: "'w Graph \<Rightarrow> int \<Rightarrow> int set" where
  "reachable G root = (edge_rel G)\<^sup>* `` {root}"

definition reached_edges :: "'w Graph \<Rightarrow> int \<Rightarrow> (int \<times> int) set" where
  "reached_edges G root = {(u, v). (u, v) \<in> edge_rel G \<and> u \<in> reachable G root}"

definition tree_shaped :: "'w Graph \<Rightarrow> int \<Rightarrow> bool" where
  "tree_shaped G root =
     (inj_on snd (reached_edges G root) \<and> root \<notin> snd ` reached_edges G root)"

definition rest_isolated :: "'w Graph \<Rightarrow> int \<Rightarrow> bool" where
  "rest_isolated G root =
     (\<forall>v. 0 \<le> v \<and> v < numVertices G \<and> v \<notin> reachable G root \<longrightarrow> neighbours G v = [])"

text \<open>
  The state of the traversal: the marked vertices as a set, and the invariant of the
  queue loop. \<open>D\<close> is the set of edges the traversal has followed: every marked vertex
  but the root is the target of exactly one of them.
\<close>

definition marked_set :: "bool list \<Rightarrow> int set" where
  "marked_set marked = {v. in_range marked v \<and> marked ! nat v}"

definition bfs_inv :: "'w Graph \<Rightarrow> int \<Rightarrow> (int \<times> int) set \<Rightarrow> bool list \<Rightarrow> int list \<Rightarrow> bool" where
  "bfs_inv G root D marked q =
     (int (length marked) = numVertices G \<and>
      set q \<subseteq> marked_set marked \<and> distinct q \<and>
      root \<in> marked_set marked \<and> marked_set marked \<subseteq> reachable G root \<and>
      D \<subseteq> edge_rel G \<and> fst ` D \<subseteq> marked_set marked - set q \<and>
      marked_set marked = insert root (snd ` D) \<and>
      inj_on snd D \<and> root \<notin> snd ` D)"

definition edges_done :: "'w Graph \<Rightarrow> (int \<times> int) set \<Rightarrow> int set \<Rightarrow> bool" where
  "edges_done G D X = (\<forall>u \<in> X. \<forall>v. (u, v) \<in> edge_rel G \<longrightarrow> (u, v) \<in> D)"

section \<open>The graph container\<close>

lemma in_edge_list:
  "(v, w, x) \<in> set (edge_list G) \<longleftrightarrow>
   0 \<le> v \<and> v < numVertices G \<and> (w, x) \<in> set (neighbours G v)"
  by (auto simp: edge_list_def size_graph_def)

lemma contains_iff: "um_contains m k \<longleftrightarrow> k \<in> fst ` set m"
  by (simp add: um_contains_def map_of_eq_None_iff)

lemma um_at_insert_new:
  "\<not> um_contains m k \<Longrightarrow> um_at (um_insert m k v) k = Inr v"
  by (simp add: um_at_def um_insert_def um_contains_def map_add_def)

lemma um_at_insert_old:
  "um_contains m k \<Longrightarrow> um_at (um_insert m k v) k = um_at m k"
  by (simp add: um_insert_def)

lemma um_contains_insert: "um_contains (um_insert m k v) k"
  by (auto simp: um_insert_def contains_iff)

lemma graph_inv_oneEdge: "graph_inv oneEdge"
  by (simp add: graph_inv_def oneEdge_def)


text \<open>
  The invariant holds of every graph the constructors make, and \<open>addEdge\<close> and
  \<open>removeEdge\<close> keep it; after \<open>removeEdge(i, j)\<close> there is no edge from \<open>i\<close> to \<open>j\<close>.
\<close>

lemma graph_inv_Graph: "Graph N = Inr G \<Longrightarrow> graph_inv G"
  by (auto simp: Graph_def graph_inv_def split: if_splits)

lemma graph_inv_update:
  assumes "graph_inv G" and "distinct (map fst m)"
    and "\<forall>k \<in> fst ` set m. 0 \<le> k \<and> k < numVertices G"
  shows "graph_inv (G\<lparr>adjList := (adjList G)[n := m]\<rparr>)"
proof -
  have "set ((adjList G)[n := m]) \<subseteq> insert m (set (adjList G))"
    by (rule set_update_subset_insert)
  with assms show ?thesis unfolding graph_inv_def by (simp add: subset_iff) blast
qed

lemma graph_inv_addEdge:
  assumes "graph_inv G"
  shows "graph_inv (snd (addEdge G i j w))"
proof (cases "i < 0 \<or> i \<ge> numVertices G \<or> j < 0 \<or> j \<ge> numVertices G")
  case True
  with assms show ?thesis by (simp add: addEdge_def)
next
  case False
  let ?m = "adjList G ! nat i"
  from False assms have "?m \<in> set (adjList G)" by (auto simp: graph_inv_def)
  with assms have m: "distinct (map fst ?m)" "\<forall>k \<in> fst ` set ?m. 0 \<le> k \<and> k < numVertices G"
    unfolding graph_inv_def by blast+
  have "distinct (map fst (um_insert ?m j w))"
    using m(1) by (auto simp: um_insert_def contains_iff)
  moreover have "\<forall>k \<in> fst ` set (um_insert ?m j w). 0 \<le> k \<and> k < numVertices G"
    using m(2) False by (auto simp: um_insert_def)
  ultimately have "graph_inv (G\<lparr>adjList := (adjList G)[nat i := um_insert ?m j w]\<rparr>)"
    by (rule graph_inv_update[OF assms])
  with False show ?thesis by (simp add: addEdge_def)
qed

lemma graph_inv_removeEdge:
  assumes "graph_inv G"
  shows "graph_inv (removeEdge G i j)"
proof (cases "i \<ge> 0 \<and> i < numVertices G \<and> j \<ge> 0 \<and> j < numVertices G")
  case False
  then have "removeEdge G i j = G" unfolding removeEdge_def by (simp only: if_False)
  with assms show ?thesis by simp
next
  case True
  let ?m = "adjList G ! nat i"
  from True assms have "?m \<in> set (adjList G)" by (auto simp: graph_inv_def)
  with assms have m: "distinct (map fst ?m)" "\<forall>k \<in> fst ` set ?m. 0 \<le> k \<and> k < numVertices G"
    unfolding graph_inv_def by blast+
  have "distinct (map fst (um_erase ?m j))"
    using m(1) by (simp add: um_erase_def distinct_map_filter)
  moreover have "\<forall>k \<in> fst ` set (um_erase ?m j). 0 \<le> k \<and> k < numVertices G"
    using m(2) by (auto simp: um_erase_def)
  ultimately have "graph_inv (G\<lparr>adjList := (adjList G)[nat i := um_erase ?m j]\<rparr>)"
    by (rule graph_inv_update[OF assms])
  with True show ?thesis by (simp add: removeEdge_def)
qed

lemma graph_inv_addEdges: "graph_inv G \<Longrightarrow> addEdges G es = Inr G' \<Longrightarrow> graph_inv G'"
proof (induction es arbitrary: G)
  case Nil
  then show ?case by simp
next
  case (Cons e es)
  obtain i j w where e: "e = (i, j, w)" by (cases e)
  obtain r G1 where a: "addEdge G i j w = (r, G1)" by (cases "addEdge G i j w")
  with graph_inv_addEdge[OF Cons.prems(1), of i j w] have "graph_inv G1" by simp
  with Cons e a show ?case by (auto split: sum.splits)
qed

lemma graph_inv_GraphFromEdges: "GraphFromEdges N es = Inr G \<Longrightarrow> graph_inv G"
  by (auto simp: GraphFromEdges_def split: sum.splits
      dest: graph_inv_Graph graph_inv_addEdges)

lemma removeEdge_isEdge:
  assumes "graph_inv G"
  shows "isEdge (removeEdge G i j) i j = Inr False"
proof (cases "i \<ge> 0 \<and> i < numVertices G \<and> j \<ge> 0 \<and> j < numVertices G")
  case False
  then have "removeEdge G i j = G" unfolding removeEdge_def by (simp only: if_False)
  moreover from False have "isEdge G i j = Inr False"
    unfolding isEdge_def by (simp only: if_False)
  ultimately show ?thesis by simp
next
  case True
  with assms have "nat i < length (adjList G)" "i < int (length (adjList G))"
    by (auto simp: graph_inv_def)
  with True show ?thesis
    by (auto simp: removeEdge_def isEdge_def vec_at_def in_range_def contains_iff um_erase_def)
qed

text \<open>
  After \<open>addEdge(i, j, w)\<close> with valid indices there is an edge from \<open>i\<close> to \<open>j\<close>; its
  weight is \<open>w\<close> when there was none before, and the weight it had otherwise.
\<close>

lemma addEdge_isEdge:
  assumes "graph_inv G" "0 \<le> i" "i < numVertices G" "0 \<le> j" "j < numVertices G"
  shows "isEdge (snd (addEdge G i j w)) i j = Inr True"
proof -
  from assms have "nat i < length (adjList G)" by (auto simp: graph_inv_def)
  with assms show ?thesis
    by (simp add: addEdge_def isEdge_def vec_at_def in_range_def um_contains_insert)
qed

lemma addEdge_new_edge:
  assumes "graph_inv G" "0 \<le> i" "i < numVertices G" "0 \<le> j" "j < numVertices G"
    and "isEdge G i j = Inr False"
  shows "getEdgeWeight (snd (addEdge G i j w)) i j = Inr w"
proof -
  from assms have "nat i < length (adjList G)" "i < int (length (adjList G))"
    by (auto simp: graph_inv_def)
  with assms show ?thesis
    by (simp add: addEdge_def isEdge_def getEdgeWeight_def vec_at_def in_range_def
        um_at_insert_new)
qed

lemma addEdge_existing_edge:
  assumes "graph_inv G" "isEdge G i j = Inr True"
  shows "getEdgeWeight (snd (addEdge G i j w)) i j = getEdgeWeight G i j"
  using assms
  by (auto simp: addEdge_def isEdge_def getEdgeWeight_def graph_inv_def vec_at_def in_range_def
      um_at_insert_old split: if_splits)

text \<open>
  Claim C1, at the input where it fails. On the graph with two vertices, \<open>addEdge(0, 1, 5)\<close>
  followed by \<open>addEdge(0, 1, 7)\<close>: the second call leaves the graph as it is
  (\<open>unordered_map::insert\<close> does not replace the value of a key that is present), so
  \<open>isEdge(0, 1)\<close> holds, but \<open>getEdgeWeight(0, 1)\<close> is 5 and not the 7 that was added last.
\<close>

theorem addEdge_existing_keeps_first_weight:
  "Graph 2 = Inr twoVertices \<and>
   addEdge twoVertices 0 1 5 = (Inr (), oneEdge) \<and>
   addEdge oneEdge 0 1 7 = (Inr (), oneEdge) \<and>
   isEdge oneEdge 0 1 = Inr True \<and> getEdgeWeight oneEdge 0 1 = Inr 5"
  by (simp add: Graph_def twoVertices_def oneEdge_def addEdge_def um_insert_def um_contains_def
      isEdge_def getEdgeWeight_def vec_at_def in_range_def um_at_def numeral_eq_Suc)

text \<open>
  Claim C7. When \<open>i\<close> or \<open>j\<close> is negative or not below the number of vertices,
  \<open>addEdge(i, j, w)\<close> throws \<open>std::out_of_range\<close> and the graph is the one it was.
\<close>

theorem addEdge_out_of_range:
  "i < 0 \<or> i \<ge> numVertices G \<or> j < 0 \<or> j \<ge> numVertices G \<Longrightarrow>
   addEdge G i j w = (Inl OutOfRange, G)"
  by (simp add: addEdge_def)

theorem addEdge_out_of_range_witness:
  "((2::int) < 0 \<or> 2 \<ge> numVertices twoVertices \<or> (0::int) < 0 \<or> 0 \<ge> numVertices twoVertices) \<and>
   addEdge twoVertices 2 0 9 = (Inl OutOfRange, twoVertices)"
  using addEdge_out_of_range [of 2 twoVertices 0 9] by (simp add: twoVertices_def)

text \<open>
  Claim C8. When there is no edge from \<open>i\<close> to \<open>j\<close> (\<open>isEdge(i, j)\<close> is false, which
  includes every \<open>i\<close> out of range), \<open>getEdgeWeight(i, j)\<close> throws \<open>std::out_of_range\<close>:
  it returns no weight at all, and so neither 0 nor any default.
\<close>

theorem getEdgeWeight_no_edge:
  assumes "graph_inv G" and "isEdge G i j = Inr False"
  shows "getEdgeWeight G i j = Inl OutOfRange"
proof (cases "in_range (adjList G) i")
  case False
  then show ?thesis by (simp add: getEdgeWeight_def vec_at_def)
next
  case True
  with assms(1) have i: "0 \<le> i" "i < numVertices G" and mem: "adjList G ! nat i \<in> set (adjList G)"
    by (auto simp: in_range_def graph_inv_def)
  have "\<not> um_contains (adjList G ! nat i) j"
  proof
    assume c: "um_contains (adjList G ! nat i) j"
    with mem assms(1) have "0 \<le> j \<and> j < numVertices G"
      unfolding graph_inv_def contains_iff by blast
    with c i True assms(2) show False by (simp add: isEdge_def vec_at_def)
  qed
  with True show ?thesis
    by (simp add: getEdgeWeight_def vec_at_def um_at_def um_contains_def)
qed

theorem getEdgeWeight_no_edge_witness:
  "graph_inv oneEdge \<and> isEdge oneEdge 1 0 = Inr False \<and> isEdge oneEdge 5 0 = Inr False \<and>
   getEdgeWeight oneEdge 1 0 = Inl OutOfRange \<and> getEdgeWeight oneEdge 5 0 = Inl OutOfRange"
proof -
  have a: "isEdge oneEdge 1 0 = Inr False" and b: "isEdge oneEdge 5 0 = Inr False"
    by (simp_all add: isEdge_def oneEdge_def vec_at_def in_range_def um_contains_def)
  from graph_inv_oneEdge a b
    getEdgeWeight_no_edge [OF graph_inv_oneEdge a] getEdgeWeight_no_edge [OF graph_inv_oneEdge b]
  show ?thesis by simp
qed

section \<open>isSubgraph\<close>

lemma isEdge_getEdgeWeight: "isEdge G v w = Inr True \<Longrightarrow> \<exists>x. getEdgeWeight G v w = Inr x"
  by (auto simp: isEdge_def getEdgeWeight_def um_contains_def um_at_def
      split: if_splits sum.splits option.splits)

lemma isEdge_returns:
  assumes "graph_inv G"
  shows "\<exists>b. isEdge G v w = Inr b"
proof (cases "v \<ge> 0 \<and> v < numVertices G \<and> w \<ge> 0 \<and> w < numVertices G")
  case True
  with assms have "in_range (adjList G) v" by (simp add: graph_inv_def in_range_def)
  with True show ?thesis by (simp add: isEdge_def vec_at_def)
next
  case False
  then have "isEdge G v w = Inr False" unfolding isEdge_def by (simp only: if_False)
  then show ?thesis by blast
qed

lemma isSubgraph_edges_eq:
  assumes "graph_inv G"
  shows "isSubgraph_edges G v es =
     (if \<forall>e \<in> set es. isEdge G v (fst e) = Inr True \<and> getEdgeWeight G v (fst e) = Inr (snd e)
      then Next () else Return False)"
proof (induction es)
  case Nil
  then show ?case by simp
next
  case (Cons e es)
  from isEdge_returns[OF assms] obtain b where b: "isEdge G v (fst e) = Inr b" by blast
  show ?case
  proof (cases b)
    case False
    with b show ?thesis by simp
  next
    case True
    with b have "isEdge G v (fst e) = Inr True" by simp
    from isEdge_getEdgeWeight[OF this] obtain x where "getEdgeWeight G v (fst e) = Inr x"
      by blast
    with True b Cons.IH show ?thesis by (simp add: Let_def)
  qed
qed

lemma isSubgraph_loop_eq:
  "graph_inv G \<Longrightarrow>
   isSubgraph_loop H G vs =
     Inr (\<forall>v \<in> set vs. \<forall>e \<in> set (neighbours H v).
            isEdge G v (fst e) = Inr True \<and> getEdgeWeight G v (fst e) = Inr (snd e))"
  by (induction vs) (simp_all add: isSubgraph_edges_eq)


text \<open>
  Claim C6. \<open>isSubgraph(H, G)\<close> throws nothing and returns false when \<open>H\<close> has more
  vertices than \<open>G\<close>; otherwise it returns true exactly when every edge
  \<open>(v, w, weight)\<close> of \<open>H\<close> has \<open>G.isEdge(v, w)\<close> and \<open>G.getEdgeWeight(v, w) == weight\<close>.
\<close>

theorem isSubgraph_iff:
  assumes "graph_inv H" and "graph_inv G"
  shows "isSubgraph H G =
     Inr (\<not> size_graph H > size_graph G \<and>
          (\<forall>(v, w, weight) \<in> set (edge_list H).
             isEdge G v w = Inr True \<and> getEdgeWeight G v w = Inr weight))"
proof -
  have "(\<forall>(v, w, weight) \<in> set (edge_list H).
           isEdge G v w = Inr True \<and> getEdgeWeight G v w = Inr weight)
        \<longleftrightarrow> (\<forall>v \<in> set [0 .. size_graph H - 1]. \<forall>e \<in> set (neighbours H v).
            isEdge G v (fst e) = Inr True \<and> getEdgeWeight G v (fst e) = Inr (snd e))"
    by (fastforce simp: edge_list_def)
  then show ?thesis
    using assms(2) by (simp add: isSubgraph_def isSubgraph_loop_eq)
qed

theorem isSubgraph_iff_witness:
  "graph_inv scenarioA_T \<and> graph_inv scenarioA_G \<and> graph_inv twoVertices \<and>
   isSubgraph scenarioA_T scenarioA_G = Inr True \<and>
   isSubgraph scenarioA_G scenarioA_T = Inr False \<and>
   isSubgraph scenarioA_G twoVertices = Inr False"
proof -
  have t: "graph_inv scenarioA_T" by (simp add: graph_inv_def scenarioA_T_def)
  have g: "graph_inv scenarioA_G" by (simp add: graph_inv_def scenarioA_G_def)
  have v: "graph_inv twoVertices" by (simp add: graph_inv_def twoVertices_def)
  have "isSubgraph scenarioA_T scenarioA_G = Inr True"
    using isSubgraph_iff [OF t g]
    by (simp add: edge_list_def size_graph_def scenarioA_T_def scenarioA_G_def upto_rec1
        neighbours_def isEdge_def getEdgeWeight_def vec_at_def in_range_def um_contains_def
        um_at_def)
  moreover have "isSubgraph scenarioA_G scenarioA_T = Inr False"
    using isSubgraph_iff [OF g t]
    by (simp add: edge_list_def size_graph_def scenarioA_T_def scenarioA_G_def upto_rec1
        neighbours_def isEdge_def getEdgeWeight_def vec_at_def in_range_def um_contains_def
        um_at_def)
  moreover have "isSubgraph scenarioA_G twoVertices = Inr False"
    using isSubgraph_iff [OF g v]
    by (simp add: size_graph_def scenarioA_G_def twoVertices_def)
  ultimately show ?thesis using t g v by simp
qed

section \<open>isTreePlusIsolated\<close>

lemma bfs_invD:
  assumes "bfs_inv G root D marked q"
  shows "int (length marked) = numVertices G"
    and "set q \<subseteq> marked_set marked" and "distinct q"
    and "root \<in> marked_set marked" and "marked_set marked \<subseteq> reachable G root"
    and "D \<subseteq> edge_rel G" and "fst ` D \<subseteq> marked_set marked - set q"
    and "marked_set marked = insert root (snd ` D)"
    and "inj_on snd D" and "root \<notin> snd ` D"
  using assms unfolding bfs_inv_def by blast+

lemma marked_set_update:
  "in_range marked k \<Longrightarrow> marked_set (marked[nat k := True]) = insert k (marked_set marked)"
  by (auto simp: marked_set_def in_range_def nth_list_update)

lemma edge_rel_in_range:
  assumes "graph_inv G" "(u, k) \<in> edge_rel G"
  shows "0 \<le> k \<and> k < numVertices G"
proof -
  from assms(2) have u: "0 \<le> u" "u < numVertices G" and k: "k \<in> fst ` set (neighbours G u)"
    by (auto simp: edge_rel_def)
  from u assms(1) have "neighbours G u \<in> set (adjList G)"
    by (auto simp: neighbours_def graph_inv_def)
  with assms(1) k show ?thesis unfolding graph_inv_def by blast
qed

lemma tree_shaped_revisit:
  assumes inv: "bfs_inv G root D marked q"
    and u: "u \<in> marked_set marked" and uk: "(u, k) \<in> edge_rel G" "(u, k) \<notin> D"
    and k: "k \<in> marked_set marked"
  shows "\<not> tree_shaped G root"
proof
  assume ts: "tree_shaped G root"
  note iv = bfs_invD[OF inv]
  from iv(5) u have "u \<in> reachable G root" by blast
  with uk have e1: "(u, k) \<in> reached_edges G root" by (simp add: reached_edges_def)
  from iv(8) k have "k = root \<or> k \<in> snd ` D" by blast
  then show False
  proof
    assume "k = root"
    with e1 have "root \<in> snd ` reached_edges G root" by force
    with ts show False by (simp add: tree_shaped_def)
  next
    assume "k \<in> snd ` D"
    then obtain u' where d: "(u', k) \<in> D" by auto
    from d have "u' \<in> fst ` D" by force
    with iv(5,7) have "u' \<in> reachable G root" by blast
    moreover from d iv(6) have "(u', k) \<in> edge_rel G" by blast
    ultimately have e2: "(u', k) \<in> reached_edges G root" by (simp add: reached_edges_def)
    from ts have "inj_on snd (reached_edges G root)" by (simp add: tree_shaped_def)
    from inj_onD[OF this _ e1 e2] have "u = u'" by simp
    with d uk(2) show False by simp
  qed
qed

lemma bfs_inv_step:
  assumes gi: "graph_inv G" and inv: "bfs_inv G root D marked q"
    and u: "u \<in> marked_set marked" "u \<notin> set q"
    and uk: "(u, k) \<in> edge_rel G" "(u, k) \<notin> D"
    and k: "in_range marked k" "k \<notin> marked_set marked"
  shows "bfs_inv G root (insert (u, k) D) (marked[nat k := True]) (q @ [k])"
proof -
  let ?M = "marked_set marked"
  have ms: "marked_set (marked[nat k := True]) = insert k ?M"
    using k(1) by (rule marked_set_update)
  from bfs_invD[OF inv] have len: "int (length marked) = numVertices G"
    and q: "set q \<subseteq> ?M" "distinct q"
    and root: "root \<in> ?M" and reach: "?M \<subseteq> reachable G root"
    and D: "D \<subseteq> edge_rel G" "fst ` D \<subseteq> ?M - set q" "?M = insert root (snd ` D)"
      "inj_on snd D" "root \<notin> snd ` D"
    by blast+
  from reach u(1) have "(root, u) \<in> (edge_rel G)\<^sup>*" by (auto simp: reachable_def)
  then have "(root, k) \<in> (edge_rel G)\<^sup>*" using uk(1) by (rule rtrancl_into_rtrancl)
  then have kr: "k \<in> reachable G root" by (simp add: reachable_def)
  from k(2) q have knq: "k \<notin> set q" by blast
  from k(2) root have kroot: "k \<noteq> root" by blast
  from k(2) u(1) have ku: "k \<noteq> u" by blast
  from k(2) D(3) have knD: "k \<notin> snd ` D" by blast
  have "int (length (marked[nat k := True])) = numVertices G" using len by simp
  moreover have "set (q @ [k]) \<subseteq> insert k ?M" using q by auto
  moreover have "distinct (q @ [k])" using q knq by simp
  moreover have "root \<in> insert k ?M" using root by simp
  moreover have "insert k ?M \<subseteq> reachable G root" using reach kr by simp
  moreover have "insert (u, k) D \<subseteq> edge_rel G" using D(1) uk(1) by simp
  moreover have "fst ` insert (u, k) D \<subseteq> insert k ?M - set (q @ [k])"
  proof
    fix x assume "x \<in> fst ` insert (u, k) D"
    then have "x = u \<or> x \<in> fst ` D" by auto
    with D(2) u have "x \<in> ?M" "x \<notin> set q" by blast+
    moreover from this(1) k(2) have "x \<noteq> k" by blast
    ultimately show "x \<in> insert k ?M - set (q @ [k])" by simp
  qed
  moreover have "insert k ?M = insert root (snd ` insert (u, k) D)"
    by (subst D(3)) auto
  moreover have "inj_on snd (insert (u, k) D)"
  proof (rule inj_onI)
    fix a b assume a: "a \<in> insert (u, k) D" and b: "b \<in> insert (u, k) D" and e: "snd a = snd b"
    show "a = b"
    proof (cases "a \<in> D \<and> b \<in> D")
      case True
      with D(4) e show ?thesis by (auto dest: inj_onD)
    next
      case False
      with a b e knD show ?thesis by force
    qed
  qed
  moreover have "root \<notin> snd ` insert (u, k) D" using D(5) kroot by auto
  ultimately show ?thesis unfolding bfs_inv_def ms by blast
qed

lemma markEdges_inv:
  assumes "graph_inv G"
    and "bfs_inv G root D marked q"
    and "u \<in> marked_set marked" "u \<notin> set q"
    and "edges_done G D (marked_set marked - set q - {u})"
    and "\<forall>v. (u, v) \<in> edge_rel G \<longrightarrow> (u, v) \<in> D \<or> v \<in> fst ` set es"
    and "\<forall>k \<in> fst ` set es. (u, k) \<in> edge_rel G \<and> (u, k) \<notin> D"
    and "distinct (map fst es)"
  shows "case markEdges es marked q of
           Throw e \<Rightarrow> False
         | Return b \<Rightarrow> \<not> b \<and> \<not> tree_shaped G root
         | Next (m', q') \<Rightarrow>
             \<exists>D'. bfs_inv G root D' m' q' \<and> edges_done G D' (marked_set m' - set q')"
  using assms
proof (induction es arbitrary: D marked q)
  case Nil
  then have "edges_done G D (marked_set marked - set q)"
    unfolding edges_done_def by auto
  with Nil show ?case by auto
next
  case (Cons edge es)
  let ?k = "fst edge"
  let ?M = "marked_set marked"
  from Cons.prems(7) have uk: "(u, ?k) \<in> edge_rel G" "(u, ?k) \<notin> D" by simp_all
  from bfs_invD(1)[OF Cons.prems(2)] have len: "int (length marked) = numVertices G" .
  from edge_rel_in_range[OF Cons.prems(1) uk(1)] len have kr: "in_range marked ?k"
    by (simp add: in_range_def)
  show ?case
  proof (cases "marked ! nat ?k")
    case True
    with kr have "?k \<in> ?M" by (simp add: marked_set_def)
    from tree_shaped_revisit[OF Cons.prems(2,3) uk this] True kr
    show ?thesis by (simp add: vec_at_def Let_def)
  next
    case False
    then have knm: "?k \<notin> ?M" by (simp add: marked_set_def)
    let ?D = "insert (u, ?k) D" and ?m = "marked[nat ?k := True]" and ?q = "q @ [?k]"
    have ms: "marked_set ?m = insert ?k ?M" using kr by (rule marked_set_update)
    have inv': "bfs_inv G root ?D ?m ?q"
      using Cons.prems(1,2,3,4) uk kr knm by (rule bfs_inv_step)
    have u': "u \<in> marked_set ?m" "u \<notin> set ?q"
      using Cons.prems(3,4) knm by (auto simp: ms)
    have done': "edges_done G ?D (marked_set ?m - set ?q - {u})"
      using Cons.prems(5) unfolding edges_done_def ms by auto
    have pend: "\<forall>v. (u, v) \<in> edge_rel G \<longrightarrow> (u, v) \<in> ?D \<or> v \<in> fst ` set es"
      using Cons.prems(6) by auto
    have keys: "\<forall>k \<in> fst ` set es. (u, k) \<in> edge_rel G \<and> (u, k) \<notin> ?D"
    proof
      fix k' assume k': "k' \<in> fst ` set es"
      from Cons.prems(8) have "?k \<notin> fst ` set es" by simp
      with k' have "k' \<noteq> ?k" by blast
      moreover from k' have "k' \<in> fst ` set (edge # es)" by simp
      with Cons.prems(7) have "(u, k') \<in> edge_rel G \<and> (u, k') \<notin> D" by blast
      ultimately show "(u, k') \<in> edge_rel G \<and> (u, k') \<notin> ?D" by simp
    qed
    have dist: "distinct (map fst es)" using Cons.prems(8) by simp
    from Cons.IH[OF Cons.prems(1) inv' u' done' pend keys dist] False kr
    show ?thesis by (simp add: vec_at_def Let_def)
  qed
qed

lemma treeLoop_inv:
  assumes "graph_inv G"
    and "bfs_inv G root D marked q"
    and "edges_done G D (marked_set marked - set q)"
  shows "case treeLoop G marked q of
           Throw e \<Rightarrow> False
         | Return b \<Rightarrow> \<not> b \<and> \<not> tree_shaped G root
         | Next m' \<Rightarrow> tree_shaped G root \<and> marked_set m' = reachable G root \<and>
                       int (length m') = numVertices G"
  using assms
proof (induction G marked q arbitrary: D rule: treeLoop.induct)
  case (1 G marked)
  let ?M = "marked_set marked"
  from bfs_invD[OF "1.prems"(2)] have len: "int (length marked) = numVertices G"
    and root: "root \<in> ?M" and reach: "?M \<subseteq> reachable G root"
    and D: "D \<subseteq> edge_rel G" "?M = insert root (snd ` D)" "inj_on snd D" "root \<notin> snd ` D"
    by blast+
  from "1.prems"(3) have dn: "\<And>u v. u \<in> ?M \<Longrightarrow> (u, v) \<in> edge_rel G \<Longrightarrow> (u, v) \<in> D"
    by (auto simp: edges_done_def)
  have "v \<in> ?M" if "(root, v) \<in> (edge_rel G)\<^sup>*" for v
    using that
  proof (induction rule: rtrancl_induct)
    case base
    then show ?case by (rule root)
  next
    case (step y z)
    from dn[OF step.IH step.hyps(2)] have "z \<in> snd ` D" by force
    then show ?case by (subst D(2)) simp
  qed
  then have eq: "?M = reachable G root" using reach by (auto simp: reachable_def)
  have sub: "reached_edges G root \<subseteq> D"
    using dn eq by (auto simp: reached_edges_def)
  have "inj_on snd (reached_edges G root)" using D(3) sub by (rule inj_on_subset)
  moreover have "root \<notin> snd ` reached_edges G root" using D(4) sub by auto
  ultimately show ?case using eq len by (simp add: tree_shaped_def)
next
  case (2 G marked u q)
  let ?M = "marked_set marked"
  let ?es = "neighbours G u"
  note iv = bfs_invD[OF "2.prems"(2)]
  from iv have len: "int (length marked) = numVertices G"
    and q: "set (u # q) \<subseteq> ?M" "distinct (u # q)"
    and D: "fst ` D \<subseteq> ?M - set (u # q)"
    by blast+
  have "set q \<subseteq> ?M" "distinct q" "fst ` D \<subseteq> ?M - set q"
    using q D by auto
  with iv(1,4,5,6,8,9,10) have inv: "bfs_inv G root D marked q"
    unfolding bfs_inv_def by blast
  from q have u: "u \<in> ?M" "u \<notin> set q" by auto
  from u(1) len have ur: "0 \<le> u" "u < numVertices G"
    by (auto simp: marked_set_def in_range_def)
  have dn: "edges_done G D (?M - set q - {u})"
    using "2.prems"(3) unfolding edges_done_def by auto
  have pend: "\<forall>v. (u, v) \<in> edge_rel G \<longrightarrow> (u, v) \<in> D \<or> v \<in> fst ` set ?es"
    by (auto simp: edge_rel_def)
  have "u \<notin> fst ` D" using D by auto
  then have "(u, k) \<notin> D" for k by force
  then have keys: "\<forall>k \<in> fst ` set ?es. (u, k) \<in> edge_rel G \<and> (u, k) \<notin> D"
    using ur by (simp add: edge_rel_def)
  from ur "2.prems"(1) have "?es \<in> set (adjList G)"
    by (auto simp: neighbours_def graph_inv_def)
  with "2.prems"(1) have dist: "distinct (map fst ?es)" unfolding graph_inv_def by blast
  note me = markEdges_inv[OF "2.prems"(1) inv u dn pend keys dist]
  show ?case
  proof (cases "markEdges ?es marked q")
    case (Throw e)
    with me show ?thesis by simp
  next
    case (Return b)
    with me show ?thesis by simp
  next
    case (Next s)
    obtain m' q' where s: "s = (m', q')" by (cases s)
    with me Next obtain D' where
      "bfs_inv G root D' m' q'" "edges_done G D' (marked_set m' - set q')" by auto
    from "2.IH"[OF Next s[symmetric] "2.prems"(1) this] Next s show ?thesis by simp
  qed
qed

lemma isolated_loop_eq:
  "\<forall>v \<in> set vs. in_range marked v \<Longrightarrow>
   isolated_loop G marked vs = Inr (\<forall>v \<in> set vs. marked ! nat v \<or> neighbours G v = [])"
  by (induction vs) (auto simp: vec_at_def)

lemma isTreePlusIsolated_eq:
  assumes gi: "graph_inv G" and r: "0 \<le> root" "root < numVertices G"
  shows "isTreePlusIsolated G root = Inr (tree_shaped G root \<and> rest_isolated G root)"
proof -
  let ?init = "replicate (nat (size_graph G)) False"
  let ?m = "?init[nat root := True]"
  from r have rng: "in_range ?init root" by (simp add: in_range_def size_graph_def)
  have "marked_set ?init = {}" by (simp add: marked_set_def in_range_def)
  with marked_set_update[OF rng] have ms: "marked_set ?m = {root}" by simp
  have "int (length ?m) = numVertices G" using r by (simp add: size_graph_def)
  then have inv: "bfs_inv G root {} ?m [root]"
    by (simp add: bfs_inv_def ms reachable_def)
  have dn: "edges_done G {} (marked_set ?m - set [root])"
    by (simp add: ms edges_done_def)
  note tl = treeLoop_inv[OF gi inv dn]
  show ?thesis
  proof (cases "treeLoop G ?m [root]")
    case (Throw e)
    with tl show ?thesis by simp
  next
    case (Return b)
    with tl rng show ?thesis by (simp add: isTreePlusIsolated_def Let_def)
  next
    case (Next m')
    with tl have ts: "tree_shaped G root" and eq: "marked_set m' = reachable G root"
      and len: "int (length m') = numVertices G" by simp_all
    have "\<forall>v \<in> set [0 .. size_graph G - 1]. in_range m' v"
      using len by (auto simp: in_range_def size_graph_def)
    from isolated_loop_eq[OF this]
    have "isolated_loop G m' [0 .. size_graph G - 1] =
            Inr (\<forall>v \<in> set [0 .. size_graph G - 1]. m' ! nat v \<or> neighbours G v = [])" .
    also have "(\<forall>v \<in> set [0 .. size_graph G - 1]. m' ! nat v \<or> neighbours G v = []) \<longleftrightarrow>
               rest_isolated G root"
    proof -
      have "m' ! nat v \<longleftrightarrow> v \<in> reachable G root" if "0 \<le> v" "v < numVertices G" for v
        using that len by (simp add: eq[symmetric] marked_set_def in_range_def)
      then show ?thesis by (auto simp: rest_isolated_def size_graph_def)
    qed
    finally show ?thesis using Next rng ts by (simp add: isTreePlusIsolated_def Let_def)
  qed
qed

lemma treeLoop_from_root:
  assumes gi: "graph_inv G" and r: "0 \<le> root" "root < numVertices G"
  shows "case treeLoop G ((replicate (nat (size_graph G)) False)[nat root := True]) [root] of
           Throw e \<Rightarrow> False
         | Return b \<Rightarrow> \<not> b \<and> \<not> tree_shaped G root
         | Next m' \<Rightarrow> tree_shaped G root \<and> marked_set m' = reachable G root \<and>
                       int (length m') = numVertices G"
proof -
  let ?init = "replicate (nat (size_graph G)) False"
  let ?m = "?init[nat root := True]"
  from r have rng: "in_range ?init root" by (simp add: in_range_def size_graph_def)
  have "marked_set ?init = {}" by (simp add: marked_set_def in_range_def)
  with marked_set_update[OF rng] have ms: "marked_set ?m = {root}" by simp
  have "int (length ?m) = numVertices G" using r by (simp add: size_graph_def)
  then have inv: "bfs_inv G root {} ?m [root]"
    by (simp add: bfs_inv_def ms reachable_def)
  have dn: "edges_done G {} (marked_set ?m - set [root])"
    by (simp add: ms edges_done_def)
  from treeLoop_inv[OF gi inv dn] show ?thesis .
qed

text \<open>
  Claim C4. For a graph and a valid root, \<open>isTreePlusIsolated\<close> throws nothing and
  returns true exactly when the traversal meets no marked vertex and every vertex it
  leaves unmarked has no outgoing edge. The traversal stops at a marked vertex (the
  queue loop returns) exactly when two edges leaving reachable vertices share their
  target (a vertex of in-degree above 1) or one of them enters the root (a cycle through
  the root); when it runs to its end, the marked vertices are the vertices reachable
  from the root. So the verdict is false when the reachable part is not tree-shaped,
  false when a vertex outside it has an outgoing edge, and true otherwise; on the graph
  with one vertex and no edge it is true.
\<close>

theorem isTreePlusIsolated_iff:
  assumes "graph_inv G" and "0 \<le> root" and "root < numVertices G"
  shows "isTreePlusIsolated G root = Inr (tree_shaped G root \<and> rest_isolated G root) \<and>
         ((\<exists>b. treeLoop G ((replicate (nat (size_graph G)) False)[nat root := True]) [root]
                 = Return b) \<longleftrightarrow> \<not> tree_shaped G root) \<and>
         (\<forall>m'. treeLoop G ((replicate (nat (size_graph G)) False)[nat root := True]) [root]
                 = Next m' \<longrightarrow> marked_set m' = reachable G root)"
proof -
  define t where "t = treeLoop G ((replicate (nat (size_graph G)) False)[nat root := True]) [root]"
  from treeLoop_from_root[OF assms] have tl:
    "case t of Throw e \<Rightarrow> False
     | Return b \<Rightarrow> \<not> b \<and> \<not> tree_shaped G root
     | Next m' \<Rightarrow> tree_shaped G root \<and> marked_set m' = reachable G root \<and>
                   int (length m') = numVertices G"
    unfolding t_def .
  have a: "(\<exists>b. t = Return b) \<longleftrightarrow> \<not> tree_shaped G root"
    using tl by (cases t) auto
  have b: "\<forall>m'. t = Next m' \<longrightarrow> marked_set m' = reachable G root"
    using tl by auto
  show ?thesis using a b isTreePlusIsolated_eq[OF assms] unfolding t_def by blast
qed

theorem isTreePlusIsolated_iff_witness:
  "graph_inv singleVertex \<and> isTreePlusIsolated singleVertex 0 = Inr True \<and>
   tree_shaped singleVertex 0 \<and> rest_isolated singleVertex 0 \<and>
   graph_inv twoParents \<and> isTreePlusIsolated twoParents 0 = Inr False \<and>
   \<not> tree_shaped twoParents 0 \<and>
   graph_inv unreachedEdge \<and> isTreePlusIsolated unreachedEdge 0 = Inr False \<and>
   tree_shaped unreachedEdge 0 \<and> \<not> rest_isolated unreachedEdge 0"
proof -
  have g1: "graph_inv singleVertex" by (simp add: graph_inv_def singleVertex_def)
  have e1: "isTreePlusIsolated singleVertex 0 = Inr True"
    by (simp add: isTreePlusIsolated_def size_graph_def singleVertex_def upto_rec1 neighbours_def
        vec_at_def in_range_def)
  have g2: "graph_inv twoParents" by (simp add: graph_inv_def twoParents_def)
  have e2: "isTreePlusIsolated twoParents 0 = Inr False"
    by (simp add: isTreePlusIsolated_def size_graph_def twoParents_def upto_rec1 neighbours_def
        vec_at_def in_range_def numeral_eq_Suc)
  have g3: "graph_inv unreachedEdge" by (simp add: graph_inv_def unreachedEdge_def)
  have e3: "isTreePlusIsolated unreachedEdge 0 = Inr False"
    by (simp add: isTreePlusIsolated_def size_graph_def unreachedEdge_def upto_rec1 neighbours_def
        vec_at_def in_range_def numeral_eq_Suc)
  have n1: "numVertices singleVertex = 1" by (simp add: singleVertex_def)
  have n2: "numVertices twoParents = 3" by (simp add: twoParents_def)
  have n3: "numVertices unreachedEdge = 3" by (simp add: unreachedEdge_def)
  from isTreePlusIsolated_iff[OF g1, of 0] e1 n1
  have t1: "tree_shaped singleVertex 0 \<and> rest_isolated singleVertex 0" by simp
  have a: "(0, 2) \<in> reached_edges twoParents 0" and b: "(1, 2) \<in> reached_edges twoParents 0"
    by (auto simp: reached_edges_def reachable_def edge_rel_def twoParents_def neighbours_def
        intro: r_into_rtrancl)
  have t2: "\<not> tree_shaped twoParents 0"
  proof
    assume "tree_shaped twoParents 0"
    then have "inj_on snd (reached_edges twoParents 0)" by (simp add: tree_shaped_def)
    from inj_onD[OF this _ a b] show False by simp
  qed
  have no0: "(0, y) \<notin> edge_rel unreachedEdge" for y
    by (simp add: edge_rel_def unreachedEdge_def neighbours_def)
  have "u = 0" if "(0, u) \<in> (edge_rel unreachedEdge)\<^sup>*" for u
    using that no0 by (auto elim: converse_rtranclE)
  then have "reached_edges unreachedEdge 0 = {}"
    using no0 by (auto simp: reached_edges_def reachable_def)
  then have t3: "tree_shaped unreachedEdge 0" by (simp add: tree_shaped_def)
  with isTreePlusIsolated_iff[OF g3, of 0] e3 n3 have r3: "\<not> rest_isolated unreachedEdge 0" by simp
  from g1 e1 t1 g2 e2 t2 g3 e3 t3 r3 show ?thesis by simp
qed

text \<open>
  Claim C10. With a root that is negative or not below the number of vertices,
  \<open>isTreePlusIsolated\<close> throws \<open>std::out_of_range\<close> at \<open>marked.at(root)\<close>, its first
  access: it gives no verdict, and no vertex has been marked or visited.
\<close>

theorem isTreePlusIsolated_invalid_root:
  assumes "0 \<le> numVertices G" and "root < 0 \<or> root \<ge> numVertices G"
  shows "isTreePlusIsolated G root = Inl OutOfRange"
  using assms by (auto simp: isTreePlusIsolated_def in_range_def size_graph_def Let_def)

theorem isTreePlusIsolated_invalid_root_witness:
  "0 \<le> numVertices oneEdge \<and> ((-1::int) < 0 \<or> -1 \<ge> numVertices oneEdge) \<and>
   ((2::int) < 0 \<or> 2 \<ge> numVertices oneEdge) \<and>
   isTreePlusIsolated oneEdge (-1) = Inl OutOfRange \<and>
   isTreePlusIsolated oneEdge 2 = Inl OutOfRange"
  using isTreePlusIsolated_invalid_root [of oneEdge "-1"]
    isTreePlusIsolated_invalid_root [of oneEdge 2]
  by (simp add: oneEdge_def)

section \<open>pathLengthsFromRoot and allEdgesRelaxed\<close>

text \<open>
  Claim C2, at an input where it fails. With a weight type that has a native infinity,
  the tree of two vertices and no edge, and root 0: vertex 1 is not reachable and its
  distance is \<open>numeric_limits<T>::max()\<close>, the value \<open>dist_to\<close> is filled with, while
  the infinity value \<open>infinity<T>()\<close> of that type is its native infinity.
\<close>

theorem pathLengths_unreached_is_max_not_infinity:
  "Graph 2 = Inr isolated2 \<and>
   pathLengthsFromRoot fp_limits isolated2 0 = Some (Inr [0, max_value fp_limits]) \<and>
   infinity fp_limits = PInf \<and> max_value fp_limits \<noteq> infinity fp_limits"
  by (simp add: Graph_def isolated2_def pathLengthsFromRoot_def pathLoop.simps fp_limits_def
      size_graph_def neighbours_def in_range_def infinity_def numeral_eq_Suc)

text \<open>
  Claim C3, at an input where it fails. The tree has three vertices and no edge, so
  vertices 1 and 2 are unreached and get the distance \<open>max()\<close>; the graph has the one
  edge \<open>(1, 2)\<close> of weight \<open>- 1\<close>. The tree is a subgraph and tree-shaped, the only edge
  of the graph leaves an unreached vertex, and \<open>allEdgesRelaxed\<close> on the computed
  distances returns false: \<open>max()\<close> is not \<open>infinity<T>()\<close>, so the edge is tested, and
  \<open>max() > max() + (- 1)\<close>.
\<close>

theorem allEdgesRelaxed_fails_on_unreached_edge:
  "GraphFromEdges 3 [] = Inr isolated3 \<and>
   GraphFromEdges 3 [(1, 2, Fin (- 1))] = Inr stray_edge \<and>
   isSubgraph isolated3 stray_edge = Inr True \<and>
   isTreePlusIsolated isolated3 0 = Inr True \<and>
   pathLengthsFromRoot fp_limits isolated3 0 = Some (Inr [0, Fin fp_max, Fin fp_max]) \<and>
   edge_list stray_edge = [(1, 2, Fin (- 1))] \<and>
   allEdgesRelaxed fp_limits [0, Fin fp_max, Fin fp_max] stray_edge 0 = Inr False"
proof -
  have "GraphFromEdges 3 [] = Inr isolated3"
    by (simp add: GraphFromEdges_def Graph_def isolated3_def numeral_eq_Suc)
  moreover have "GraphFromEdges 3 [(1, 2, Fin (- 1))] = Inr stray_edge"
    by (simp add: GraphFromEdges_def Graph_def addEdge_def um_insert_def um_contains_def
        stray_edge_def numeral_eq_Suc)
  moreover have "isSubgraph isolated3 stray_edge = Inr True"
    by (simp add: isSubgraph_def size_graph_def isolated3_def stray_edge_def upto_rec1
        neighbours_def)
  moreover have "isTreePlusIsolated isolated3 0 = Inr True"
    by (simp add: isTreePlusIsolated_def size_graph_def isolated3_def upto_rec1 neighbours_def
        vec_at_def in_range_def numeral_eq_Suc)
  moreover have "pathLengthsFromRoot fp_limits isolated3 0 = Some (Inr [0, Fin fp_max, Fin fp_max])"
    by (simp add: pathLengthsFromRoot_def pathLoop.simps fp_limits_def size_graph_def
        isolated3_def neighbours_def in_range_def numeral_eq_Suc)
  moreover have "edge_list stray_edge = [(1, 2, Fin (- 1))]"
    by (simp add: edge_list_def size_graph_def stray_edge_def upto_rec1 neighbours_def)
  moreover have "allEdgesRelaxed fp_limits [0, Fin fp_max, Fin fp_max] stray_edge 0 = Inr False"
    by (simp add: allEdgesRelaxed_def infinity_def fp_limits_def size_graph_def stray_edge_def
        upto_rec1 neighbours_def vec_at_def in_range_def zero_fp_def less_fp_def fp_max_def)
  ultimately show ?thesis by simp
qed

text \<open>
  What does hold of \<open>pathLengthsFromRoot\<close>, for every weight type: in the vector it
  returns, a vertex that is not reachable from the root has the distance
  \<open>numeric_limits<T>::max()\<close>. That is \<open>infinity<T>()\<close> exactly for the types without a
  native infinity.
\<close>

lemma relaxEdges_unreached:
  assumes "relaxEdges cur es dist q = Inr (dist', q')"
    and "\<forall>k \<in> fst ` set es. k \<in> R"
    and "set q \<subseteq> R" and "\<forall>v \<in> set q. in_range dist v"
    and "\<forall>v. v \<notin> R \<longrightarrow> in_range dist v \<longrightarrow> dist ! nat v = c"
  shows "set q' \<subseteq> R \<and> (\<forall>v \<in> set q'. in_range dist' v) \<and>
         (\<forall>v. v \<notin> R \<longrightarrow> in_range dist' v \<longrightarrow> dist' ! nat v = c) \<and>
         length dist' = length dist"
  using assms
proof (induction es arbitrary: dist q)
  case Nil
  then show ?case by simp
next
  case (Cons edge es)
  let ?k = "fst edge" and ?w = "snd edge"
  from Cons.prems(1) have k: "in_range dist ?k" and c: "in_range dist cur"
    by (auto simp: vec_at_def Let_def split: if_splits)
  from Cons.prems(2) have kR: "?k \<in> R" and ks: "\<forall>k \<in> fst ` set es. k \<in> R" by simp_all
  show ?case
  proof (cases "dist ! nat ?k > dist ! nat cur + ?w")
    case True
    let ?d = "dist[nat ?k := dist ! nat cur + ?w]"
    from True k c Cons.prems(1) have
      re: "relaxEdges cur es ?d (q @ [?k]) = Inr (dist', q')"
      by (simp add: vec_at_def Let_def)
    have q: "set (q @ [?k]) \<subseteq> R" using Cons.prems(3) kR by simp
    have r: "\<forall>v \<in> set (q @ [?k]). in_range ?d v"
      using Cons.prems(4) k by (auto simp: in_range_def)
    have u: "\<forall>v. v \<notin> R \<longrightarrow> in_range ?d v \<longrightarrow> ?d ! nat v = c"
    proof (intro allI impI)
      fix v assume v: "v \<notin> R" "in_range ?d v"
      with kR have "v \<noteq> ?k" by blast
      with v(2) k have "nat v \<noteq> nat ?k" by (auto simp: in_range_def)
      with v Cons.prems(5) show "?d ! nat v = c" by (simp add: in_range_def)
    qed
    from Cons.IH[OF re ks q r u] show ?thesis by simp
  next
    case False
    with k c Cons.prems(1) have re: "relaxEdges cur es dist q = Inr (dist', q')"
      by (simp add: vec_at_def Let_def)
    from Cons.IH[OF re ks Cons.prems(3,4,5)] show ?thesis .
  qed
qed

lemma pathLoop_unreached:
  fixes G :: "'w::{linorder,plus} Graph"
  assumes "pathLoop G dist q = Some r"
  shows "r = Inr d \<longrightarrow> int (length dist) = numVertices G \<longrightarrow>
         set q \<subseteq> reachable G root \<longrightarrow> (\<forall>v \<in> set q. in_range dist v) \<longrightarrow>
         (\<forall>v. v \<notin> reachable G root \<longrightarrow> in_range dist v \<longrightarrow> dist ! nat v = c) \<longrightarrow>
         (\<forall>v. v \<notin> reachable G root \<longrightarrow> in_range d v \<longrightarrow> d ! nat v = c) \<and>
         length d = length dist"
proof (rule pathLoop.raw_induct
    [where P = "\<lambda>(G :: 'w Graph) dist q r. r = Inr d \<longrightarrow> int (length dist) = numVertices G \<longrightarrow>
         set q \<subseteq> reachable G root \<longrightarrow> (\<forall>v \<in> set q. in_range dist v) \<longrightarrow>
         (\<forall>v. v \<notin> reachable G root \<longrightarrow> in_range dist v \<longrightarrow> dist ! nat v = c) \<longrightarrow>
         (\<forall>v. v \<notin> reachable G root \<longrightarrow> in_range d v \<longrightarrow> d ! nat v = c) \<and>
         length d = length dist", OF _ assms])
  fix pl :: "'w Graph \<Rightarrow> 'w list \<Rightarrow> int list \<Rightarrow> (error + 'w list) option"
    and G :: "'w Graph" and dist q r
  let ?R = "reachable G root"
  assume IH: "\<And>G dist q r. pl G dist q = Some r \<Longrightarrow>
         r = Inr d \<longrightarrow> int (length dist) = numVertices G \<longrightarrow>
         set q \<subseteq> reachable G root \<longrightarrow> (\<forall>v \<in> set q. in_range dist v) \<longrightarrow>
         (\<forall>v. v \<notin> reachable G root \<longrightarrow> in_range dist v \<longrightarrow> dist ! nat v = c) \<longrightarrow>
         (\<forall>v. v \<notin> reachable G root \<longrightarrow> in_range d v \<longrightarrow> d ! nat v = c) \<and>
         length d = length dist"
    and step: "(case q of [] \<Rightarrow> Some (Inr dist)
        | currentVertex # rest \<Rightarrow>
          (case relaxEdges currentVertex (neighbours G currentVertex) dist rest of
             Inl e \<Rightarrow> Some (Inl e)
           | Inr (dist_to', visit_queue') \<Rightarrow> pl G dist_to' visit_queue')) = Some r"
  show "r = Inr d \<longrightarrow> int (length dist) = numVertices G \<longrightarrow>
         set q \<subseteq> ?R \<longrightarrow> (\<forall>v \<in> set q. in_range dist v) \<longrightarrow>
         (\<forall>v. v \<notin> ?R \<longrightarrow> in_range dist v \<longrightarrow> dist ! nat v = c) \<longrightarrow>
         (\<forall>v. v \<notin> ?R \<longrightarrow> in_range d v \<longrightarrow> d ! nat v = c) \<and> length d = length dist"
  proof (intro impI)
    assume r: "r = Inr d" and len: "int (length dist) = numVertices G"
      and q: "set q \<subseteq> ?R" and rng: "\<forall>v \<in> set q. in_range dist v"
      and un: "\<forall>v. v \<notin> ?R \<longrightarrow> in_range dist v \<longrightarrow> dist ! nat v = c"
    show "(\<forall>v. v \<notin> ?R \<longrightarrow> in_range d v \<longrightarrow> d ! nat v = c) \<and> length d = length dist"
    proof (cases q)
      case Nil
      with step r un show ?thesis by simp
    next
      case (Cons cur rest)
      with step r obtain dist' q' where
        re: "relaxEdges cur (neighbours G cur) dist rest = Inr (dist', q')"
        and pl: "pl G dist' q' = Some (Inr d)"
        by (auto split: sum.splits)
      from Cons q rng len have cur: "cur \<in> ?R" "0 \<le> cur" "cur < numVertices G"
        by (auto simp: in_range_def)
      have keys: "\<forall>k \<in> fst ` set (neighbours G cur). k \<in> ?R"
      proof
        fix k assume "k \<in> fst ` set (neighbours G cur)"
        with cur(2,3) have "(cur, k) \<in> edge_rel G" by (simp add: edge_rel_def)
        moreover from cur(1) have "(root, cur) \<in> (edge_rel G)\<^sup>*" by (simp add: reachable_def)
        ultimately have "(root, k) \<in> (edge_rel G)\<^sup>*" by (simp add: rtrancl_into_rtrancl)
        then show "k \<in> ?R" by (simp add: reachable_def)
      qed
      from Cons q rng have "set rest \<subseteq> ?R" "\<forall>v \<in> set rest. in_range dist v" by auto
      from relaxEdges_unreached[OF re keys this un]
      have a: "set q' \<subseteq> ?R" "\<forall>v \<in> set q'. in_range dist' v"
        "\<forall>v. v \<notin> ?R \<longrightarrow> in_range dist' v \<longrightarrow> dist' ! nat v = c"
        "length dist' = length dist" by blast+
      from IH[OF pl] a len show ?thesis by simp
    qed
  qed
qed

lemma pathLengths_unreached_max:
  assumes "pathLengthsFromRoot L G root = Some (Inr d)"
    and "0 \<le> v" and "v < numVertices G" and "v \<notin> reachable G root"
  shows "int (length d) = numVertices G \<and> d ! nat v = max_value L"
proof -
  let ?d = "replicate (nat (size_graph G)) (max_value L)"
  from assms(1) have r: "in_range ?d root"
    and pl: "pathLoop G (?d[nat root := 0]) [root] = Some (Inr d)"
    by (auto simp: pathLengthsFromRoot_def Let_def split: if_splits)
  from assms(2,3) have len: "int (length (?d[nat root := 0])) = numVertices G"
    by (simp add: size_graph_def)
  have root: "root \<in> reachable G root" by (simp add: reachable_def)
  have un: "\<forall>v. v \<notin> reachable G root \<longrightarrow> in_range (?d[nat root := 0]) v \<longrightarrow>
             (?d[nat root := 0]) ! nat v = max_value L"
  proof (intro allI impI)
    fix v assume v: "v \<notin> reachable G root" "in_range (?d[nat root := 0]) v"
    with root have "v \<noteq> root" by blast
    with v(2) r have "nat v \<noteq> nat root" by (auto simp: in_range_def)
    moreover from v(2) have "nat v < length ?d"
      by (auto simp: in_range_def split: if_splits)
    ultimately show "(?d[nat root := 0]) ! nat v = max_value L" by simp
  qed
  from pathLoop_unreached[OF pl, of d root "max_value L"] len root r un
  have "(\<forall>v. v \<notin> reachable G root \<longrightarrow> in_range d v \<longrightarrow> d ! nat v = max_value L) \<and>
        length d = length (?d[nat root := 0])"
    by (simp add: in_range_def)
  with len assms(2,3,4) show ?thesis by (simp add: in_range_def)
qed

lemma pathLengths_unreached_infinity:
  assumes "pathLengthsFromRoot L G root = Some (Inr d)" and "\<not> has_infinity L"
    and "0 \<le> v" and "v < numVertices G" and "v \<notin> reachable G root"
  shows "d ! nat v = infinity L"
  using pathLengths_unreached_max[OF assms(1,3,4,5)] assms(2) by (simp add: infinity_def)




section \<open>Termination\<close>


























section \<open>Scenario A\<close>

text \<open>
  Claim C5. In scenario A, with \<open>int\<close> weights and root 0, the candidate tree is a
  subgraph of the graph and tree-shaped, its distances from the root are
  \<open>[0, 1, 3, 4]\<close>, every edge of the graph is relaxed under them, and so all three
  checks of the composite verification succeed.
\<close>

theorem scenarioA_valid:
  "GraphFromEdges 4 [(0, 1, 1), (0, 2, 4), (1, 2, 2), (1, 3, 5), (2, 3, 1)] = Inr scenarioA_G \<and>
   GraphFromEdges 4 [(0, 1, 1), (1, 2, 2), (2, 3, 1)] = Inr scenarioA_T \<and>
   isSubgraph scenarioA_T scenarioA_G = Inr True \<and>
   isTreePlusIsolated scenarioA_T 0 = Inr True \<and>
   pathLengthsFromRoot int_limits scenarioA_T 0 = Some (Inr [0, 1, 3, 4]) \<and>
   allEdgesRelaxed int_limits [0, 1, 3, 4] scenarioA_G 0 = Inr True"
proof -
  have "GraphFromEdges 4 [(0, 1, 1), (0, 2, 4), (1, 2, 2), (1, 3, 5), (2, 3, 1)] = Inr scenarioA_G"
    by (simp add: GraphFromEdges_def Graph_def addEdge_def um_insert_def um_contains_def
        scenarioA_G_def numeral_eq_Suc)
  moreover have "GraphFromEdges 4 [(0, 1, 1), (1, 2, 2), (2, 3, 1)] = Inr scenarioA_T"
    by (simp add: GraphFromEdges_def Graph_def addEdge_def um_insert_def um_contains_def
        scenarioA_T_def numeral_eq_Suc)
  moreover have "isSubgraph scenarioA_T scenarioA_G = Inr True"
    by (simp add: isSubgraph_def size_graph_def scenarioA_T_def scenarioA_G_def upto_rec1
      neighbours_def isEdge_def getEdgeWeight_def vec_at_def in_range_def um_contains_def um_at_def)
  moreover have "isTreePlusIsolated scenarioA_T 0 = Inr True"
    by (simp add: isTreePlusIsolated_def size_graph_def scenarioA_T_def upto_rec1 neighbours_def
        vec_at_def in_range_def numeral_eq_Suc)
  moreover have "pathLengthsFromRoot int_limits scenarioA_T 0 = Some (Inr [0, 1, 3, 4])"
    by (simp add: pathLengthsFromRoot_def pathLoop.simps int_limits_def size_graph_def
        scenarioA_T_def neighbours_def vec_at_def in_range_def numeral_eq_Suc)
  moreover have "allEdgesRelaxed int_limits [0, 1, 3, 4] scenarioA_G 0 = Inr True"
    by (simp add: allEdgesRelaxed_def infinity_def int_limits_def size_graph_def scenarioA_G_def
        upto_rec1 neighbours_def vec_at_def in_range_def)
  ultimately show ?thesis by simp
qed

end
